theory Spec2Isabelle
  imports Complex_Main
begin

section \<open>Arrays and errors\<close>

text \<open>
  The module \<^verbatim>\<open>pianoroll_utils.py\<close> works on numpy arrays. A two-dimensional array is
  modelled by its shape and its rows; the shape is kept beside the data because an array
  with no rows still has a column count (\<^verbatim>\<open>shape == (0, 128)\<close>), and the assertions of
  the module compare shapes. Entries are integers (pianorolls hold velocities), so
  \<^verbatim>\<open>astype(int)\<close> is the identity on them.

  Every exception the module or numpy can raise on these paths is a value of \<open>error\<close>;
  a function that can raise returns \<open>error + 'a\<close> with \<open>Inl\<close> for the exception.
\<close>

datatype error = AssertionError | IndexError | ValueError | ZeroDivisionError

record ndarray =
  shape0 :: nat
  shape1 :: nat
  rows :: "int list list"

definition well_shaped :: "ndarray \<Rightarrow> bool" where
  "well_shaped a =
     (length (rows a) = shape0 a \<and> list_all (\<lambda>r. length r = shape1 a) (rows a))"

text \<open>
  Python slicing \<^verbatim>\<open>xs[i:j]\<close> never raises: a negative bound counts from the end, and
  every bound is clamped to the length.
\<close>

definition slice_index :: "nat \<Rightarrow> int \<Rightarrow> nat" where
  "slice_index n i = (if i < 0 then nat (max 0 (int n + i)) else min n (nat i))"

definition py_slice :: "int \<Rightarrow> int \<Rightarrow> 'a list \<Rightarrow> 'a list" where
  "py_slice i j xs =
     (let a = slice_index (length xs) i; b = slice_index (length xs) j
      in take (b - a) (drop a xs))"

text \<open>\<^verbatim>\<open>np.zeros((r, c))\<close> raises \<^verbatim>\<open>ValueError\<close> on a negative dimension.\<close>

definition np_zeros :: "int \<Rightarrow> int \<Rightarrow> error + ndarray" where
  "np_zeros r c =
     (if r < 0 \<or> c < 0 then Inl ValueError
      else Inr \<lparr>shape0 = nat r, shape1 = nat c,
                rows = replicate (nat r) (replicate (nat c) 0)\<rparr>)"

text \<open>\<^verbatim>\<open>np.hstack\<close> joins arrays column-wise; the row counts must agree.\<close>

definition hstack2 :: "ndarray \<Rightarrow> ndarray \<Rightarrow> error + ndarray" where
  "hstack2 a b =
     (if shape0 a \<noteq> shape0 b then Inl ValueError
      else Inr \<lparr>shape0 = shape0 a, shape1 = shape1 a + shape1 b,
                rows = map (\<lambda>(r, s). r @ s) (zip (rows a) (rows b))\<rparr>)"

definition hstack3 :: "ndarray \<Rightarrow> ndarray \<Rightarrow> ndarray \<Rightarrow> error + ndarray" where
  "hstack3 a b c =
     (case hstack2 a b of Inl e \<Rightarrow> Inl e | Inr ab \<Rightarrow> hstack2 ab c)"

section \<open>Cropping and padding the pitch axis\<close>

text \<open>
  \<^verbatim>\<open>crop_pianoroll\<close>: assert 128 columns, slice the columns
  \<^verbatim>\<open>min_pitch:max_pitch+1\<close>, assert the width of the slice.
\<close>

definition crop_pianoroll :: "ndarray \<Rightarrow> int \<Rightarrow> int \<Rightarrow> error + ndarray" where
  "crop_pianoroll pianoroll min_pitch max_pitch =
     (if shape1 pianoroll \<noteq> 128 then Inl AssertionError
      else
        let output =
              \<lparr>shape0 = shape0 pianoroll,
               shape1 = slice_index (shape1 pianoroll) (max_pitch + 1)
                        - slice_index (shape1 pianoroll) min_pitch,
               rows = map (py_slice min_pitch (max_pitch + 1)) (rows pianoroll)\<rparr>
        in if int (shape1 output) \<noteq> max_pitch - min_pitch + 1 then Inl AssertionError
           else Inr output)"

text \<open>
  \<^verbatim>\<open>pad_pianoroll\<close>: assert the width, build \<^verbatim>\<open>front\<close> with
  \<^verbatim>\<open>min_pitch-1\<close> zero columns and \<^verbatim>\<open>back\<close> with \<^verbatim>\<open>128-max_pitch\<close> zero columns,
  stack them around the input, assert 128 columns.
\<close>

definition pad_pianoroll :: "ndarray \<Rightarrow> int \<Rightarrow> int \<Rightarrow> error + ndarray" where
  "pad_pianoroll pianoroll min_pitch max_pitch =
     (if int (shape1 pianoroll) \<noteq> max_pitch - min_pitch + 1 then Inl AssertionError
      else
        let ticks = shape0 pianoroll in
        (case np_zeros (int ticks) (min_pitch - 1) of
          Inl e \<Rightarrow> Inl e
        | Inr front \<Rightarrow>
            (case np_zeros (int ticks) (128 - max_pitch) of
               Inl e \<Rightarrow> Inl e
             | Inr back \<Rightarrow>
                 (case hstack3 front pianoroll back of
                    Inl e \<Rightarrow> Inl e
                  | Inr output \<Rightarrow>
                      if shape1 output \<noteq> 128 then Inl AssertionError else Inr output))))"

text \<open>The composition the round-trip property speaks about.\<close>

definition crop_then_pad :: "ndarray \<Rightarrow> int \<Rightarrow> int \<Rightarrow> error + ndarray" where
  "crop_then_pad pianoroll min_pitch max_pitch =
     (case crop_pianoroll pianoroll min_pitch max_pitch of
        Inl e \<Rightarrow> Inl e
      | Inr cropped \<Rightarrow> pad_pianoroll cropped min_pitch max_pitch)"

section \<open>Truncating to a multiple of the unit length\<close>

text \<open>
  \<^verbatim>\<open>int(a / b)\<close> is true division followed by truncation toward zero, and raises
  \<^verbatim>\<open>ZeroDivisionError\<close> when \<open>b = 0\<close>. The quotient is modelled exactly; the
  floating-point quotient agrees with it for tick counts far beyond any array that fits
  in memory (below \<open>2^52\<close>).
\<close>

definition trunc_div :: "int \<Rightarrow> int \<Rightarrow> int" where
  "trunc_div a b = sgn a * sgn b * (\<bar>a\<bar> div \<bar>b\<bar>)"

definition chop_to_unit_multiple :: "ndarray \<Rightarrow> int \<Rightarrow> error + (int \<times> ndarray)" where
  "chop_to_unit_multiple pianoroll ticks_per_unit =
     (let num_ticks = shape0 pianoroll; num_pitches = shape1 pianoroll in
      if ticks_per_unit = 0 then Inl ZeroDivisionError
      else
        let M = trunc_div (int num_ticks) ticks_per_unit;
            kept = py_slice 0 (M * ticks_per_unit) (rows pianoroll);
            pianoroll_truncated =
              \<lparr>shape0 = length kept, shape1 = num_pitches, rows = kept\<rparr>
        in if \<not> M * ticks_per_unit \<le> int num_ticks then Inl AssertionError
           else if int (shape0 pianoroll_truncated) \<noteq> M * ticks_per_unit
             then Inl AssertionError
           else Inr (M, pianoroll_truncated))"

section \<open>Units: splitting, exchanging and filtering\<close>

text \<open>
  The unit arrays of \<^verbatim>\<open>create_units\<close> have three axes: unit, tick within the unit, pitch.
\<close>

record ndarray3 =
  dim0 :: nat
  dim1 :: nat
  dim2 :: nat
  units :: "int list list list"

definition well_shaped3 :: "ndarray3 \<Rightarrow> bool" where
  "well_shaped3 u =
     (length (units u) = dim0 u
      \<and> list_all (\<lambda>m. length m = dim1 u \<and> list_all (\<lambda>r. length r = dim2 u) m) (units u))"

text \<open>
  \<^verbatim>\<open>a[:, i:j] = 0\<close> on one row: the slice bounds are read as Python reads them, so no
  bound is out of range.
\<close>

definition zero_slice :: "int \<Rightarrow> int \<Rightarrow> int list \<Rightarrow> int list" where
  "zero_slice i j row =
     (let a = slice_index (length row) i; b = slice_index (length row) j
      in if a < b then take a row @ replicate (b - a) 0 @ drop b row else row)"

text \<open>
  \<^verbatim>\<open>a.reshape(M, T, N)\<close> regroups the entries in row-major order and raises
  \<^verbatim>\<open>ValueError\<close> when the sizes differ.
\<close>

definition chunks :: "nat \<Rightarrow> nat \<Rightarrow> 'a list \<Rightarrow> 'a list list" where
  "chunks k n xs = map (\<lambda>i. take n (drop (i * n) xs)) [0..<k]"

definition reshape3 :: "ndarray \<Rightarrow> nat \<Rightarrow> nat \<Rightarrow> nat \<Rightarrow> error + ndarray3" where
  "reshape3 a M T N =
     (if shape0 a * shape1 a \<noteq> M * T * N then Inl ValueError
      else Inr \<lparr>dim0 = M, dim1 = T, dim2 = N,
                units = chunks M T (chunks (M * T) N (concat (rows a)))\<rparr>)"

text \<open>
  \<^verbatim>\<open>shuffle_left_right\<close>. The random vector
  \<^verbatim>\<open>np.random.randint(0, 2, left_units.shape[0], dtype=bool)\<close> is a parameter: \<open>rnd i\<close> is
  the boolean drawn for unit \<open>i\<close>, so every realization is some \<open>rnd\<close>. The two masked
  assignments replace the units where the boolean is true by the units of the other side.
  numpy raises \<^verbatim>\<open>IndexError\<close> when the mask is not as long as the indexed array and
  \<^verbatim>\<open>ValueError\<close> when the assigned block does not fit; the model reports every
  difference of the trailing dimensions as \<^verbatim>\<open>ValueError\<close> (numpy would still broadcast
  dimensions of size one; \<^verbatim>\<open>create_units\<close> passes equal shapes).
\<close>

definition masked_assign :: "bool list \<Rightarrow> 'a list \<Rightarrow> 'a list \<Rightarrow> 'a list" where
  "masked_assign flags target source =
     map (\<lambda>(b, t, s). if b then s else t) (zip flags (zip target source))"

definition shuffle_left_right ::
  "(nat \<Rightarrow> bool) \<Rightarrow> ndarray3 \<Rightarrow> ndarray3 \<Rightarrow> error + (ndarray3 \<times> ndarray3)" where
  "shuffle_left_right rnd left_units right_units =
     (let bool_array = map rnd [0..<dim0 left_units] in
      if dim0 right_units \<noteq> dim0 left_units then Inl IndexError
      else if dim1 right_units \<noteq> dim1 left_units \<or> dim2 right_units \<noteq> dim2 left_units
        then Inl ValueError
      else
        let input_units =
              left_units\<lparr>units := masked_assign bool_array (units left_units) (units right_units)\<rparr>;
            comp_units =
              right_units\<lparr>units := masked_assign bool_array (units right_units) (units left_units)\<rparr>
        in Inr (input_units, comp_units))"

text \<open>
  The filter of \<^verbatim>\<open>create_units\<close>. \<^verbatim>\<open>np.mean(input_units, axis=(1,2))\<close> is the mean of
  each unit (\<^verbatim>\<open>nan\<close>, here \<open>None\<close>, for a unit with no entries, and \<^verbatim>\<open>nan > x\<close> is
  false); means and threshold are exact rationals. \<^verbatim>\<open>.squeeze()\<close> drops every axis of
  length one, so with exactly one unit the means, and the mask \<^verbatim>\<open>filter_array\<close>, are
  zero-dimensional. Indexing \<^verbatim>\<open>a[mask, ...]\<close> with a one-dimensional mask keeps the units
  where the mask is true; with a zero-dimensional mask it puts a new axis of length 1
  (true) or 0 (false) in front of the whole array.
\<close>

definition unit_mean :: "int list list \<Rightarrow> rat option" where
  "unit_mean u =
     (let entries = concat u in
      if entries = [] then None
      else Some (of_int (sum_list entries) / of_nat (length entries)))"

definition mean_above :: "rat \<Rightarrow> rat option \<Rightarrow> bool" where
  "mean_above threshold m = (case m of None \<Rightarrow> False | Some x \<Rightarrow> x > threshold)"

definition squeeze_shape :: "nat list \<Rightarrow> nat list" where
  "squeeze_shape s = filter (\<lambda>d. d \<noteq> 1) s"

definition count_true :: "bool list \<Rightarrow> nat" where
  "count_true flags = length (filter (\<lambda>b. b) flags)"

definition bool_index :: "bool list \<Rightarrow> 'a list \<Rightarrow> 'a list" where
  "bool_index flags xs = map snd (filter fst (zip flags xs))"

definition bool_index_shape :: "nat list \<Rightarrow> bool list \<Rightarrow> nat list \<Rightarrow> nat list" where
  "bool_index_shape mask_shape flags array_shape =
     (if mask_shape = [] then (if hd flags then 1 else 0) # array_shape
      else count_true flags # tl array_shape)"


text \<open>
  \<^verbatim>\<open>create_units\<close>, statement by statement: the shape assertion, the truncation, the two
  \<^verbatim>\<open>np.zeros\<close> (which raise on a negative dimension), the split at
  \<^verbatim>\<open>partition_note - min_pitch\<close>, the two reshapes, the exchange, the filter and the two
  closing assertions.
\<close>

definition create_units ::
  "(nat \<Rightarrow> bool) \<Rightarrow> ndarray \<Rightarrow> int \<Rightarrow> int \<Rightarrow> int \<Rightarrow> int \<Rightarrow> rat
     \<Rightarrow> error + (ndarray3 \<times> ndarray3)" where
  "create_units rnd pianoroll num_pitches ticks_per_unit partition_note min_pitch
       filter_threshold =
     (if int (shape1 pianoroll) \<noteq> num_pitches then Inl AssertionError
      else
        (case chop_to_unit_multiple pianoroll ticks_per_unit of
          Inl e \<Rightarrow> Inl e
        | Inr (M, truncated) \<Rightarrow>
            if M < 0 \<or> ticks_per_unit < 0 \<or> num_pitches < 0 then Inl ValueError
            else
              let partition = partition_note - min_pitch;
                  left_comp =
                    truncated\<lparr>rows := map (zero_slice partition (int (shape1 truncated)))
                                         (rows truncated)\<rparr>;
                  right_comp =
                    truncated\<lparr>rows := map (zero_slice 0 partition) (rows truncated)\<rparr>
              in
              (case reshape3 left_comp (nat M) (nat ticks_per_unit) (nat num_pitches) of
                Inl e \<Rightarrow> Inl e
              | Inr left_units \<Rightarrow>
                  (case reshape3 right_comp (nat M) (nat ticks_per_unit) (nat num_pitches) of
                     Inl e \<Rightarrow> Inl e
                   | Inr right_units \<Rightarrow>
                       (case shuffle_left_right rnd left_units right_units of
                          Inl e \<Rightarrow> Inl e
                        | Inr (input_units, comp_units) \<Rightarrow>
                            let filter_array =
                                  map (\<lambda>u. mean_above filter_threshold (unit_mean u))
                                    (units input_units);
                                mask_shape = squeeze_shape [dim0 input_units];
                                input_shape =
                                  bool_index_shape mask_shape filter_array
                                    [dim0 input_units, dim1 input_units, dim2 input_units];
                                comp_shape =
                                  bool_index_shape mask_shape filter_array
                                    [dim0 comp_units, dim1 comp_units, dim2 comp_units];
                                M' = count_true filter_array
                            in
                            if map int input_shape \<noteq> [int M', ticks_per_unit, num_pitches]
                              then Inl AssertionError
                            else if map int comp_shape \<noteq> [int M', ticks_per_unit, num_pitches]
                              then Inl AssertionError
                            else
                              Inr (\<lparr>dim0 = M', dim1 = dim1 input_units,
                                     dim2 = dim2 input_units,
                                     units = bool_index filter_array (units input_units)\<rparr>,
                                   \<lparr>dim0 = M', dim1 = dim1 comp_units,
                                     dim2 = dim2 comp_units,
                                     units = bool_index filter_array (units comp_units)\<rparr>))))))"

section \<open>From a pianoroll to note events\<close>

text \<open>
  A \<^verbatim>\<open>mido.Message\<close> of the kind the module builds: its type, note, velocity and time.
  The constructor checks that note and velocity are MIDI data bytes and raises
  \<^verbatim>\<open>ValueError\<close> otherwise. The module writes a note-off as a \<^verbatim>\<open>note_on\<close> message
  with velocity 0.
\<close>

record message =
  msg_type :: string
  msg_note :: int
  msg_velocity :: int
  msg_time :: int

definition Message :: "string \<Rightarrow> int \<Rightarrow> int \<Rightarrow> int \<Rightarrow> error + message" where
  "Message ty n v t =
     (if 0 \<le> n \<and> n \<le> 127 \<and> 0 \<le> v \<and> v \<le> 127
      then Inr \<lparr>msg_type = ty, msg_note = n, msg_velocity = v, msg_time = t\<rparr>
      else Inl ValueError)"

text \<open>\<^verbatim>\<open>pianoroll.T\<close>.\<close>

definition np_T :: "ndarray \<Rightarrow> ndarray" where
  "np_T a =
     \<lparr>shape0 = shape1 a, shape1 = shape0 a,
      rows = map (\<lambda>t. map (\<lambda>r. r ! t) (rows a)) [0..<shape1 a]\<rparr>"

text \<open>
  \<^verbatim>\<open>np.pad(binarized, ((1, 1), (0, 0)), 'constant')\<close> puts one row of \<^verbatim>\<open>False\<close> before
  and one after; \<^verbatim>\<open>np.diff(..., axis=0)\<close> subtracts each row from the next.
\<close>

definition np_pad_rows :: "nat \<Rightarrow> bool list list \<Rightarrow> bool list list" where
  "np_pad_rows n xs = replicate n False # xs @ [replicate n False]"

definition np_diff :: "int list list \<Rightarrow> int list list" where
  "np_diff xs = map (\<lambda>(r, r'). map (\<lambda>(a, b). b - a) (zip r r')) (zip xs (tl xs))"

text \<open>
  \<^verbatim>\<open>a[:, j]\<close> on an array with \<open>n\<close> columns: an integer index, unlike a slice bound,
  must lie in \<open>[-n, n)\<close>, else \<^verbatim>\<open>IndexError\<close>.
\<close>

definition column :: "nat \<Rightarrow> 'a list list \<Rightarrow> int \<Rightarrow> error + 'a list" where
  "column n xs j =
     (if j < - int n \<or> int n \<le> j then Inl IndexError
      else Inr (map (\<lambda>r. r ! nat (if j < 0 then j + int n else j)) xs))"

text \<open>\<^verbatim>\<open>np.nonzero(bs)[0]\<close>: the indices of the true entries, in increasing order.\<close>

fun nonzero_from :: "nat \<Rightarrow> bool list \<Rightarrow> nat list" where
  "nonzero_from k [] = []"
| "nonzero_from k (b # bs) =
     (if b then k # nonzero_from (Suc k) bs else nonzero_from (Suc k) bs)"

definition nonzero :: "bool list \<Rightarrow> nat list" where
  "nonzero bs = nonzero_from 0 bs"

text \<open>
  The inner loop, \<^verbatim>\<open>for idx, note_on in enumerate(note_ons)\<close>. The velocity
  \<^verbatim>\<open>int(np.mean(clipped[note_on:note_offs[idx], p]))\<close> is the mean truncated toward zero
  (exact here; the floating-point mean agrees on sums below \<open>2^53\<close>); the mean of an empty
  slice is \<^verbatim>\<open>nan\<close>, on which \<^verbatim>\<open>int\<close> raises \<^verbatim>\<open>ValueError\<close>. Appending to
  \<^verbatim>\<open>events[i]\<close> raises \<^verbatim>\<open>IndexError\<close> when there is no bucket \<open>i\<close>.
\<close>

definition append_event :: "message list list \<Rightarrow> nat \<Rightarrow> message \<Rightarrow> error + message list list" where
  "append_event events i msg =
     (if length events \<le> i then Inl IndexError else Inr (events[i := events ! i @ [msg]]))"

fun note_loop ::
  "int list list \<Rightarrow> nat \<Rightarrow> nat \<Rightarrow> int \<Rightarrow> nat \<Rightarrow> nat list \<Rightarrow> nat list \<Rightarrow> (nat \<times> nat) list
     \<Rightarrow> message list list \<Rightarrow> error + message list list" where
  "note_loop clipped num_pitches p pitch num_ticks note_ons note_offs [] events = Inr events"
| "note_loop clipped num_pitches p pitch num_ticks note_ons note_offs ((idx, note_on) # rest)
       events =
     (if length note_offs \<le> idx then Inl IndexError
      else
        (case column num_pitches (py_slice (int note_on) (int (note_offs ! idx)) clipped) (int p) of
          Inl e \<Rightarrow> Inl e
        | Inr run \<Rightarrow>
            if run = [] then Inl ValueError
            else
              let velocity = trunc_div (sum_list run) (int (length run)) in
              (case Message ''note_on'' pitch velocity 0 of
                Inl e \<Rightarrow> Inl e
              | Inr on_msg \<Rightarrow>
                  (case append_event events (note_ons ! idx) on_msg of
                     Inl e \<Rightarrow> Inl e
                   | Inr events1 \<Rightarrow>
                       if note_offs ! idx < num_ticks then
                         (case Message ''note_on'' pitch 0 0 of
                            Inl e \<Rightarrow> Inl e
                          | Inr off_msg \<Rightarrow>
                              (case append_event events1 (note_offs ! idx) off_msg of
                                 Inl e \<Rightarrow> Inl e
                               | Inr events2 \<Rightarrow>
                                   note_loop clipped num_pitches p pitch num_ticks note_ons
                                     note_offs rest events2))
                       else
                         note_loop clipped num_pitches p pitch num_ticks note_ons note_offs
                           rest events1))))"

text \<open>
  The outer loop, \<^verbatim>\<open>for p in range(num_pitches)\<close>. The edges are read from column
  \<^verbatim>\<open>pitch = min_pitch + p\<close> of \<^verbatim>\<open>diff\<close>, the velocities from column \<^verbatim>\<open>p\<close> of
  \<^verbatim>\<open>clipped\<close>, as in the source.
\<close>

fun pitch_loop ::
  "int list list \<Rightarrow> int list list \<Rightarrow> nat \<Rightarrow> nat \<Rightarrow> int \<Rightarrow> nat list \<Rightarrow> message list list
     \<Rightarrow> error + message list list" where
  "pitch_loop clipped diff num_pitches num_ticks min_pitch [] events = Inr events"
| "pitch_loop clipped diff num_pitches num_ticks min_pitch (p # ps) events =
     (let pitch = min_pitch + int p in
      (case column num_pitches diff pitch of
         Inl e \<Rightarrow> Inl e
       | Inr d \<Rightarrow>
           let note_ons = nonzero (map (\<lambda>x. x > 0) d);
               note_offs = nonzero (map (\<lambda>x. x < 0) d)
           in
           (case note_loop clipped num_pitches p pitch num_ticks note_ons note_offs
                   (enumerate 0 note_ons) events of
              Inl e \<Rightarrow> Inl e
            | Inr events' \<Rightarrow>
                pitch_loop clipped diff num_pitches num_ticks min_pitch ps events')))"

definition pianoroll_2_events :: "ndarray \<Rightarrow> int \<Rightarrow> int \<Rightarrow> error + message list list" where
  "pianoroll_2_events pianoroll min_pitch max_pitch =
     (if int (shape0 pianoroll) \<noteq> max_pitch - min_pitch + 1 then Inl AssertionError
      else
        let num_pitches = shape0 pianoroll;
            num_ticks = shape1 pianoroll;
            pianoroll_T = np_T pianoroll;
            events = replicate num_ticks [];
            clipped = rows pianoroll_T;
            binarized = map (map (\<lambda>x. x \<noteq> 0)) clipped;
            padded = np_pad_rows num_pitches binarized;
            diff = np_diff (map (map of_bool) padded)
        in pitch_loop clipped diff num_pitches num_ticks min_pitch [0..<num_pitches] events)"

section \<open>Runs of a pitch row\<close>

text \<open>
  The functions of this section are not in the source: they say, on one pitch row, what
  the loops of \<^verbatim>\<open>pianoroll_2_events\<close> compute, and the proofs relate the loops to them.
  \<open>runs_from k st xs\<close> lists the maximal runs of nonzero values of \<open>xs\<close> as pairs (first
  tick, tick after the last), where \<open>k\<close> is the tick of the head of \<open>xs\<close> and \<open>st\<close> the
  start of a run that is open at \<open>k\<close>.
\<close>

fun runs_from :: "nat \<Rightarrow> nat option \<Rightarrow> int list \<Rightarrow> (nat \<times> nat) list" where
  "runs_from k None [] = []"
| "runs_from k (Some a) [] = [(a, k)]"
| "runs_from k None (v # vs) =
     (if v \<noteq> 0 then runs_from (Suc k) (Some k) vs else runs_from (Suc k) None vs)"
| "runs_from k (Some a) (v # vs) =
     (if v \<noteq> 0 then runs_from (Suc k) (Some a) vs else (a, k) # runs_from (Suc k) None vs)"

text \<open>
  The first difference of one padded, binarized pitch row; \<open>prev\<close> is the value before
  the row (the padding when \<open>prev\<close> is false).
\<close>

definition diff1 :: "int list \<Rightarrow> int list" where
  "diff1 ys = map (\<lambda>(a, b). b - a) (zip ys (tl ys))"

definition edge_series :: "bool \<Rightarrow> int list \<Rightarrow> int list" where
  "edge_series prev xs = diff1 (of_bool prev # map (\<lambda>v. of_bool (v \<noteq> 0)) xs @ [0])"

text \<open>
  The messages a run \<open>(a, b)\<close> of the row \<open>x\<close> puts into bucket \<open>t\<close>: the note-on at
  \<open>a\<close> with the truncated mean of the run, the note-off at \<open>b\<close> when \<open>b\<close> is a tick; and
  the messages of all runs of a row.
\<close>

definition run_velocity :: "int list \<Rightarrow> nat \<Rightarrow> nat \<Rightarrow> int" where
  "run_velocity x a b = trunc_div (sum_list (take (b - a) (drop a x))) (int (b - a))"

definition pair_msgs :: "int list \<Rightarrow> int \<Rightarrow> nat \<Rightarrow> nat \<Rightarrow> nat \<times> nat \<Rightarrow> message list" where
  "pair_msgs x pitch n t pr =
     (case pr of (a, b) \<Rightarrow>
        (if t = a
         then [\<lparr>msg_type = ''note_on'', msg_note = pitch, msg_velocity = run_velocity x a b,
                 msg_time = 0\<rparr>]
         else [])
        @ (if t = b \<and> b < n
           then [\<lparr>msg_type = ''note_on'', msg_note = pitch, msg_velocity = 0, msg_time = 0\<rparr>]
           else []))"

definition col_msgs :: "int list \<Rightarrow> int \<Rightarrow> nat \<Rightarrow> nat \<Rightarrow> message list" where
  "col_msgs x pitch n t = concat (map (pair_msgs x pitch n t) (runs_from 0 None x))"

section \<open>Properties of the truncation\<close>

lemma trunc_div_pos: "0 \<le> a \<Longrightarrow> 0 < b \<Longrightarrow> trunc_div a b = a div b"
  by (cases "a = 0") (simp_all add: trunc_div_def)

lemma py_slice_prefix: "0 \<le> k \<Longrightarrow> py_slice 0 k xs = take (nat k) xs"
  by (simp add: py_slice_def slice_index_def Let_def min_def take_all_iff)

lemma div_times_le: "0 < (b::int) \<Longrightarrow> a div b * b \<le> a"
proof -
  assume "0 < b"
  have "a div b * b = a - a mod b" by (simp add: minus_mod_eq_div_mult)
  moreover have "0 \<le> a mod b" using \<open>0 < b\<close> by simp
  ultimately show ?thesis by linarith
qed

lemma chop_to_unit_multiple_eq:
  assumes "length (rows P) = shape0 P" and "0 < ticks_per_unit"
  shows "chop_to_unit_multiple P ticks_per_unit =
     Inr (int (shape0 P) div ticks_per_unit,
          \<lparr>shape0 = nat (int (shape0 P) div ticks_per_unit * ticks_per_unit),
           shape1 = shape1 P,
           rows = take (nat (int (shape0 P) div ticks_per_unit * ticks_per_unit)) (rows P)\<rparr>)"
proof -
  let ?n = "int (shape0 P)"
  let ?M = "?n div ticks_per_unit"
  have M0: "0 \<le> ?M" using assms(2) by (simp add: pos_imp_zdiv_nonneg_iff)
  have le: "?M * ticks_per_unit \<le> ?n" using assms(2) by (rule div_times_le)
  hence ge0: "0 \<le> ?M * ticks_per_unit" using M0 assms(2) by simp
  have tk: "length (take (nat (?M * ticks_per_unit)) (rows P)) = nat (?M * ticks_per_unit)"
    using le assms(1) by simp
  show ?thesis
    using assms(2) le ge0 tk
    by (simp add: chop_to_unit_multiple_def Let_def trunc_div_pos py_slice_prefix)
qed



section \<open>Properties of cropping and padding\<close>

lemma pad_pianoroll_rows:
  assumes "1 \<le> min_pitch" and "max_pitch \<le> 128"
    and "int (shape1 P) = max_pitch - min_pitch + 1"
  shows "pad_pianoroll P min_pitch max_pitch =
     Inr \<lparr>shape0 = shape0 P, shape1 = 128,
          rows = map (\<lambda>(r, s). r @ s)
                  (zip (map (\<lambda>(r, s). r @ s)
                         (zip (replicate (shape0 P) (replicate (nat (min_pitch - 1)) 0)) (rows P)))
                       (replicate (shape0 P) (replicate (nat (128 - max_pitch)) 0)))\<rparr>"
proof -
  have "nat (min_pitch - 1) + shape1 P + nat (128 - max_pitch) = 128"
    using assms by linarith
  thus ?thesis
    using assms by (simp add: pad_pianoroll_def np_zeros_def hstack3_def hstack2_def Let_def)
qed

text \<open>
  Claim C10. \<open>pad_pianoroll\<close> raises whenever \<open>min_pitch = 0\<close>: when the width assertion
  passes, the front block is built with \<open>min_pitch - 1 = -1\<close> columns and \<^verbatim>\<open>np.zeros\<close>
  raises \<^verbatim>\<open>ValueError\<close>. For \<open>min_pitch \<ge> 1\<close> (on a well-formed input of the asserted
  width, \<open>max_pitch \<le> 127\<close>) it returns a matrix of width 128 in which input column \<open>p\<close>
  stands at output column \<open>min_pitch - 1 + p\<close>, and every other column is zero.
\<close>

theorem pad_pianoroll_front_width:
  "(\<exists>e. pad_pianoroll P 0 max_pitch = Inl e)
   \<and> (int (shape1 P) = max_pitch + 1 \<longrightarrow> pad_pianoroll P 0 max_pitch = Inl ValueError)
   \<and> (well_shaped P \<and> 1 \<le> min_pitch \<and> max_pitch \<le> 127
        \<and> int (shape1 P) = max_pitch - min_pitch + 1 \<longrightarrow>
       (\<exists>out. pad_pianoroll P min_pitch max_pitch = Inr out
          \<and> shape0 out = shape0 P \<and> shape1 out = 128 \<and> well_shaped out
          \<and> (\<forall>t p. t < shape0 P \<and> p < shape1 P \<longrightarrow>
                rows out ! t ! (nat (min_pitch - 1) + p) = rows P ! t ! p)
          \<and> (\<forall>t j. t < shape0 P \<and> j < 128
                \<and> (j < nat (min_pitch - 1) \<or> nat (min_pitch - 1) + shape1 P \<le> j) \<longrightarrow>
                rows out ! t ! j = 0)))"
proof (intro conjI impI)
  show "\<exists>e. pad_pianoroll P 0 max_pitch = Inl e"
    by (simp add: pad_pianoroll_def np_zeros_def)
  show "pad_pianoroll P 0 max_pitch = Inl ValueError" if "int (shape1 P) = max_pitch + 1"
    using that by (simp add: pad_pianoroll_def np_zeros_def)
next
  assume a: "well_shaped P \<and> 1 \<le> min_pitch \<and> max_pitch \<le> 127
        \<and> int (shape1 P) = max_pitch - min_pitch + 1"
  let ?f = "nat (min_pitch - 1)" and ?b = "nat (128 - max_pitch)"
  let ?out = "\<lparr>shape0 = shape0 P, shape1 = 128,
          rows = map (\<lambda>(r, s). r @ s)
                  (zip (map (\<lambda>(r, s). r @ s)
                         (zip (replicate (shape0 P) (replicate ?f 0)) (rows P)))
                       (replicate (shape0 P) (replicate ?b 0)))\<rparr>"
  have eq: "pad_pianoroll P min_pitch max_pitch = Inr ?out"
    using a by (intro pad_pianoroll_rows) auto
  have len: "length (rows P) = shape0 P"
    and cols: "\<And>t. t < shape0 P \<Longrightarrow> length (rows P ! t) = shape1 P"
    using a by (auto simp: well_shaped_def list_all_length)
  have w: "?f + shape1 P + ?b = 128" using a by linarith
  have row: "rows ?out ! t = replicate ?f 0 @ rows P ! t @ replicate ?b 0"
    if "t < shape0 P" for t
    using that len by simp
  have ws: "well_shaped ?out"
    using len cols w by (auto simp: well_shaped_def list_all_length)
  have inside: "rows ?out ! t ! (?f + p) = rows P ! t ! p"
    if "t < shape0 P" "p < shape1 P" for t p
    using that cols[of t] by (simp add: row nth_append del: ndarray.simps)
  have outside: "rows ?out ! t ! j = 0"
    if "t < shape0 P" "j < 128" "j < ?f \<or> ?f + shape1 P \<le> j" for t j
  proof -
    have "j - ?f - shape1 P < ?b" if "?f + shape1 P \<le> j" using that w \<open>j < 128\<close> by linarith
    thus ?thesis
      using that cols[of t] by (auto simp: row nth_append simp del: ndarray.simps)
  qed
  show "\<exists>out. pad_pianoroll P min_pitch max_pitch = Inr out
          \<and> shape0 out = shape0 P \<and> shape1 out = 128 \<and> well_shaped out
          \<and> (\<forall>t p. t < shape0 P \<and> p < shape1 P \<longrightarrow>
                rows out ! t ! (nat (min_pitch - 1) + p) = rows P ! t ! p)
          \<and> (\<forall>t j. t < shape0 P \<and> j < 128
                \<and> (j < nat (min_pitch - 1) \<or> nat (min_pitch - 1) + shape1 P \<le> j) \<longrightarrow>
                rows out ! t ! j = 0)"
    unfolding eq using ws inside outside by (intro exI[of _ ?out]) simp
qed

theorem pad_pianoroll_front_width_witness:
  "pad_pianoroll \<lparr>shape0 = 1, shape1 = 2, rows = [[7, 9]]\<rparr> 0 1 = Inl ValueError
   \<and> (\<exists>out. pad_pianoroll \<lparr>shape0 = 1, shape1 = 2, rows = [[7, 9]]\<rparr> 3 4 = Inr out
        \<and> shape1 out = 128 \<and> rows out ! 0 ! 2 = 7 \<and> rows out ! 0 ! 3 = 9 \<and> rows out ! 0 ! 4 = 0)"
proof -
  let ?A = "\<lparr>shape0 = 1, shape1 = 2, rows = [[7, 9]]\<rparr>"
  have ws: "well_shaped ?A" by (simp add: well_shaped_def)
  have e: "pad_pianoroll ?A 0 1 = Inl ValueError"
    using pad_pianoroll_front_width [of ?A 1 3] by simp
  obtain out where o: "pad_pianoroll ?A 3 4 = Inr out" "shape1 out = 128"
    and ins: "\<forall>t p. t < shape0 ?A \<and> p < shape1 ?A \<longrightarrow>
                rows out ! t ! (nat (3 - 1) + p) = rows ?A ! t ! p"
    and outs: "\<forall>t j. t < shape0 ?A \<and> j < 128
                \<and> (j < nat (3 - 1) \<or> nat (3 - 1) + shape1 ?A \<le> j) \<longrightarrow>
                rows out ! t ! j = 0"
    using pad_pianoroll_front_width [of ?A 4 3] ws by auto
  have "rows out ! 0 ! 2 = 7" using ins[rule_format, of 0 0] by simp
  moreover have "rows out ! 0 ! 3 = 9" using ins[rule_format, of 0 1] by simp
  moreover have "rows out ! 0 ! 4 = 0" using outs[rule_format, of 0 4] by simp
  ultimately show ?thesis using e o by blast
qed

text \<open>
  Claim C8 says that cropping and then padding with the same bounds gives back the
  pianoroll on the columns \<open>min_pitch..max_pitch\<close> and zero elsewhere. The code does not:
  with the bounds \<open>(0, 127)\<close> the padding raises \<^verbatim>\<open>ValueError\<close>, and with the bounds
  \<open>(1, 1)\<close> the value of pitch column 1 comes back in column 0.
\<close>

theorem crop_then_pad_shifts:
  "crop_then_pad \<lparr>shape0 = 1, shape1 = 128, rows = [replicate 128 0]\<rparr> 0 127 = Inl ValueError
   \<and> crop_then_pad \<lparr>shape0 = 1, shape1 = 128, rows = [[0, 5] @ replicate 126 0]\<rparr> 1 1
       = Inr \<lparr>shape0 = 1, shape1 = 128, rows = [[5] @ replicate 127 0]\<rparr>"
  by (simp add: crop_then_pad_def crop_pianoroll_def pad_pianoroll_def np_zeros_def hstack3_def
      hstack2_def py_slice_def slice_index_def)

section \<open>Properties of the exchange\<close>

lemma masked_assign_length:
  "length xs = n \<Longrightarrow> length ys = n \<Longrightarrow> length (masked_assign (map f [0..<n]) xs ys) = n"
  by (simp add: masked_assign_def)

lemma masked_assign_nth:
  "length xs = n \<Longrightarrow> length ys = n \<Longrightarrow> i < n \<Longrightarrow>
   masked_assign (map f [0..<n]) xs ys ! i = (if f i then ys ! i else xs ! i)"
  by (simp add: masked_assign_def)

text \<open>
  Claim C4. For unit arrays of equal shape and every realization \<open>rnd\<close> of the random
  booleans, \<open>shuffle_left_right\<close> returns two arrays of the same shape in which, at every
  unit index \<open>i\<close>, the pair (input, comp) is (left, right) when \<open>rnd i\<close> is false and
  (right, left) when it is true: the two sides are exchanged per index, and no unit moves
  to another index.
\<close>

theorem shuffle_left_right_exchange:
  assumes "well_shaped3 left_units" and "well_shaped3 right_units"
    and "dim0 right_units = dim0 left_units" and "dim1 right_units = dim1 left_units"
    and "dim2 right_units = dim2 left_units"
  shows "\<exists>input_units comp_units.
           shuffle_left_right rnd left_units right_units = Inr (input_units, comp_units)
           \<and> well_shaped3 input_units \<and> well_shaped3 comp_units
           \<and> dim0 input_units = dim0 left_units \<and> dim0 comp_units = dim0 left_units
           \<and> dim1 input_units = dim1 left_units \<and> dim1 comp_units = dim1 left_units
           \<and> dim2 input_units = dim2 left_units \<and> dim2 comp_units = dim2 left_units
           \<and> (\<forall>i. i < dim0 left_units \<longrightarrow>
                 (units input_units ! i, units comp_units ! i) =
                   (if rnd i then (units right_units ! i, units left_units ! i)
                    else (units left_units ! i, units right_units ! i)))
           \<and> (\<forall>i. i < dim0 left_units \<longrightarrow>
                 (units input_units ! i = units left_units ! i
                    \<and> units comp_units ! i = units right_units ! i)
                 \<or> (units input_units ! i = units right_units ! i
                    \<and> units comp_units ! i = units left_units ! i))"
proof -
  let ?n = "dim0 left_units"
  let ?flags = "map rnd [0..<?n]"
  let ?iu = "left_units\<lparr>units := masked_assign ?flags (units left_units) (units right_units)\<rparr>"
  let ?cu = "right_units\<lparr>units := masked_assign ?flags (units right_units) (units left_units)\<rparr>"
  have lenL: "length (units left_units) = ?n" and lenR: "length (units right_units) = ?n"
    using assms by (simp_all add: well_shaped3_def)
  have eq: "shuffle_left_right rnd left_units right_units = Inr (?iu, ?cu)"
    using assms by (simp add: shuffle_left_right_def Let_def)
  have nthI: "units ?iu ! i = (if rnd i then units right_units ! i else units left_units ! i)"
    and nthC: "units ?cu ! i = (if rnd i then units left_units ! i else units right_units ! i)"
    if "i < ?n" for i
    using that lenL lenR by (simp_all add: masked_assign_nth)
  have okL: "\<And>i. i < ?n \<Longrightarrow> length (units left_units ! i) = dim1 left_units
        \<and> list_all (\<lambda>r. length r = dim2 left_units) (units left_units ! i)"
    and okR: "\<And>i. i < ?n \<Longrightarrow> length (units right_units ! i) = dim1 left_units
        \<and> list_all (\<lambda>r. length r = dim2 left_units) (units right_units ! i)"
    using assms lenL lenR by (simp_all add: well_shaped3_def list_all_length)
  have wsI: "well_shaped3 ?iu"
    unfolding well_shaped3_def list_all_length
    using lenL lenR okL okR nthI by (simp add: masked_assign_length list_all_length)
  have wsC: "well_shaped3 ?cu"
    unfolding well_shaped3_def list_all_length
    using lenL lenR okL okR nthC assms(3,4,5) by (simp add: masked_assign_length list_all_length)
  show ?thesis
    apply (rule exI[of _ ?iu], rule exI[of _ ?cu])
    using eq wsI wsC nthI nthC assms(3,4,5) by simp
qed

theorem shuffle_left_right_exchange_witness:
  "shuffle_left_right (\<lambda>i. i = 1)
     \<lparr>dim0 = 2, dim1 = 1, dim2 = 2, units = [[[1, 0]], [[2, 0]]]\<rparr>
     \<lparr>dim0 = 2, dim1 = 1, dim2 = 2, units = [[[0, 3]], [[0, 4]]]\<rparr>
   = Inr (\<lparr>dim0 = 2, dim1 = 1, dim2 = 2, units = [[[1, 0]], [[0, 4]]]\<rparr>,
          \<lparr>dim0 = 2, dim1 = 1, dim2 = 2, units = [[[0, 3]], [[2, 0]]]\<rparr>)"
proof -
  let ?L = "\<lparr>dim0 = 2, dim1 = 1, dim2 = 2, units = [[[1, 0]], [[2, 0::int]]]\<rparr>"
  let ?R = "\<lparr>dim0 = 2, dim1 = 1, dim2 = 2, units = [[[0, 3]], [[0, 4::int]]]\<rparr>"
  have "well_shaped3 ?L" "well_shaped3 ?R" by (simp_all add: well_shaped3_def)
  from shuffle_left_right_exchange [OF this, of "\<lambda>i. i = 1"]
  obtain iu cu where "shuffle_left_right (\<lambda>i. i = 1) ?L ?R = Inr (iu, cu)" by auto
  thus ?thesis
    by (simp add: shuffle_left_right_def masked_assign_def upt_rec)
qed

section \<open>Properties of the unit pipeline\<close>

lemma chunks_Suc:
  "chunks (Suc k) n xs = take n xs # chunks k n (drop n xs)"
proof -
  have "[0..<Suc k] = 0 # map Suc [0..<k]" by (simp add: upt_conv_Cons map_Suc_upt del: upt_Suc)
  thus ?thesis by (simp add: chunks_def comp_def add.commute del: upt_Suc)
qed

lemma chunks_0: "chunks 0 n xs = []"
  by (simp add: chunks_def)

lemma chunks_concat:
  "\<forall>r \<in> set rs. length r = n \<Longrightarrow> chunks (length rs) n (concat rs) = rs"
  by (induction rs) (simp_all add: chunks_0 chunks_Suc)

lemma chunks_map: "chunks k n (map f xs) = map (map f) (chunks k n xs)"
  by (simp add: chunks_def take_map drop_map)

lemma length_chunks: "length (chunks k n xs) = k"
  by (simp add: chunks_def)

lemma slice_index_le: "slice_index n i \<le> n"
  by (auto simp: slice_index_def)

lemma length_zero_slice: "length (zero_slice i j row) = length row"
proof -
  have "slice_index (length row) j \<le> length row" by (rule slice_index_le)
  thus ?thesis by (auto simp: zero_slice_def Let_def)
qed




lemma bool_index_Cons:
  "bool_index (b # bs) (x # xs) = (if b then x # bool_index bs xs else bool_index bs xs)"
  by (simp add: bool_index_def)


lemma length_bool_index:
  "length bs = length xs \<Longrightarrow> length (bool_index bs xs) = count_true bs"
  by (induction bs xs rule: list_induct2) (simp_all add: bool_index_Cons count_true_def bool_index_def)



lemma create_units_eq:
  fixes P :: ndarray and ticks_per_unit partition_note min_pitch num_pitches :: int
    and rnd :: "nat \<Rightarrow> bool" and threshold :: rat
  assumes ws: "well_shaped P" and N: "int (shape1 P) = num_pitches" and tpu: "0 < ticks_per_unit"
  defines "M \<equiv> nat (int (shape0 P) div ticks_per_unit)"
  defines "U \<equiv> chunks M (nat ticks_per_unit) (take (M * nat ticks_per_unit) (rows P))"
  defines "L \<equiv> map (map (zero_slice (partition_note - min_pitch) (int (shape1 P)))) U"
  defines "R \<equiv> map (map (zero_slice 0 (partition_note - min_pitch))) U"
  defines "I \<equiv> masked_assign (map rnd [0..<M]) L R"
  defines "C \<equiv> masked_assign (map rnd [0..<M]) R L"
  defines "kept \<equiv> map (\<lambda>u. mean_above threshold (unit_mean u)) I"
  shows "create_units rnd P num_pitches ticks_per_unit partition_note min_pitch threshold =
     (if M = 1 then Inl AssertionError
      else Inr (\<lparr>dim0 = count_true kept, dim1 = nat ticks_per_unit, dim2 = shape1 P,
                  units = bool_index kept I\<rparr>,
                \<lparr>dim0 = count_true kept, dim1 = nat ticks_per_unit, dim2 = shape1 P,
                  units = bool_index kept C\<rparr>))"
proof -
  let ?q = "int (shape0 P) div ticks_per_unit"
  let ?T = "take (M * nat ticks_per_unit) (rows P)"
  have len: "length (rows P) = shape0 P"
    and cols: "\<forall>r \<in> set (rows P). length r = shape1 P"
    using ws by (simp_all add: well_shaped_def list_all_iff)
  have q0: "0 \<le> ?q" using tpu by (simp add: pos_imp_zdiv_nonneg_iff)
  have le: "?q * ticks_per_unit \<le> int (shape0 P)" using tpu by (rule div_times_le)
  have k: "nat (?q * ticks_per_unit) = M * nat ticks_per_unit"
    using q0 tpu by (simp add: M_def nat_mult_distrib)
  have "M * nat ticks_per_unit \<le> shape0 P" using le k by linarith
  hence lenT: "length ?T = M * nat ticks_per_unit" using len by simp
  have colsT: "\<forall>r \<in> set ?T. length r = shape1 P" using cols by (auto dest: in_set_takeD)
  have re: "chunks M (nat ticks_per_unit) (chunks (M * nat ticks_per_unit) (shape1 P)
              (concat (map f ?T))) = map (map f) U"
    if "\<And>r. length (f r) = length r" for f :: "int list \<Rightarrow> int list"
  proof -
    have "chunks (length (map f ?T)) (shape1 P) (concat (map f ?T)) = map f ?T"
      using colsT that by (intro chunks_concat) auto
    hence "chunks (M * nat ticks_per_unit) (shape1 P) (concat (map f ?T)) = map f ?T"
      using lenT by simp
    thus ?thesis by (simp add: chunks_map U_def)
  qed
  have N': "num_pitches = int (shape1 P)" using N by simp
  have M1: "(?q = 1) = (M = 1)" using q0 by (auto simp: M_def)
  have qM: "nat ?q = M" by (simp add: M_def)
  show ?thesis
    unfolding N' using tpu q0
    by (simp add: create_units_def chop_to_unit_multiple_eq[OF len tpu] reshape3_def k lenT
        re[OF length_zero_slice] shuffle_left_right_def Let_def bool_index_shape_def
        squeeze_shape_def qM L_def[symmetric] R_def[symmetric] I_def[symmetric]
        C_def[symmetric] kept_def[symmetric])
qed


text \<open>
  Claim C6 says that \<open>create_units\<close> fails with a range error when
  \<open>partition_note - min_pitch\<close> lies outside \<open>[0, num_pitches]\<close>. The code has no such
  check: the offset is only used as a slice bound. With \<open>num_pitches = 2\<close> and the offset
  5 the call returns units.
\<close>

theorem create_units_accepts_partition_out_of_range:
  "create_units (\<lambda>i. i = 1)
     \<lparr>shape0 = 4, shape1 = 2, rows = [[1, 0], [0, 2], [3, 0], [0, 4]]\<rparr> 2 2 5 0 0
   = Inr (\<lparr>dim0 = 1, dim1 = 2, dim2 = 2, units = [[[1, 0], [0, 2]]]\<rparr>,
          \<lparr>dim0 = 1, dim1 = 2, dim2 = 2, units = [[[0, 0], [0, 0]]]\<rparr>)"
  by code_simp

text \<open>
  Claim C6 as amended: whether \<open>create_units\<close> fails, and with which error, does not
  depend on \<open>partition_note\<close> or \<open>min_pitch\<close> (nor on the random booleans or the
  threshold): no value of the partition offset is rejected.
\<close>

theorem create_units_ignores_partition:
  "(create_units rnd P num_pitches ticks_per_unit partition_note min_pitch threshold = Inl e)
   = (create_units rnd' P num_pitches ticks_per_unit partition_note' min_pitch' threshold' = Inl e)"
  by (auto simp: create_units_def reshape3_def shuffle_left_right_def Let_def
      bool_index_shape_def squeeze_shape_def split: sum.splits prod.splits if_splits)

text \<open>
  Claim C5 describes the filter and the shape of the result. On a pianoroll that holds
  exactly one unit the code returns nothing: \<^verbatim>\<open>squeeze()\<close> makes the mask
  zero-dimensional, the masked arrays get four axes, and the closing assertion on the
  shape fails.
\<close>

theorem create_units_single_unit_fails:
  assumes "well_shaped P" and "int (shape1 P) = num_pitches" and "0 < ticks_per_unit"
    and "ticks_per_unit \<le> int (shape0 P)" and "int (shape0 P) < 2 * ticks_per_unit"
  shows "create_units rnd P num_pitches ticks_per_unit partition_note min_pitch threshold
         = Inl AssertionError"
proof -
  have len: "length (rows P) = shape0 P" using assms(1) by (simp add: well_shaped_def)
  have M: "int (shape0 P) div ticks_per_unit = 1"
  proof -
    have "(int (shape0 P) - ticks_per_unit) div ticks_per_unit = 0"
      using assms(3,4,5) by (intro div_pos_pos_trivial) auto
    moreover have "(int (shape0 P) - ticks_per_unit + ticks_per_unit) div ticks_per_unit
        = (int (shape0 P) - ticks_per_unit) div ticks_per_unit + 1"
      using assms(3) by (intro div_add_self2) simp
    ultimately show ?thesis by simp
  qed
  have N: "num_pitches = int (shape1 P)" using assms(2) by simp
  show ?thesis
    unfolding N using assms(3)
    by (simp add: create_units_def chop_to_unit_multiple_eq[OF len assms(3)] M reshape3_def
        shuffle_left_right_def Let_def bool_index_shape_def squeeze_shape_def)
qed

theorem create_units_single_unit_fails_witness:
  "create_units (\<lambda>i. False) \<lparr>shape0 = 2, shape1 = 2, rows = [[1, 2], [3, 4]]\<rparr> 2 2 1 0 0
   = Inl AssertionError"
  using create_units_single_unit_fails
    [of "\<lparr>shape0 = 2, shape1 = 2, rows = [[1, 2], [3, 4]]\<rparr>" 2 2 "\<lambda>i. False" 1 0 0]
  by (simp add: well_shaped_def)



subsection \<open>The filter, away from the one-unit case\<close>

text \<open>
  When the pianoroll holds no unit or at least two, \<open>create_units\<close> returns, and the
  filter is as described: with \<open>input0\<close> and \<open>comp0\<close> the units after the exchange, unit
  \<open>i\<close> is kept exactly when the mean of \<open>input0 ! i\<close> is strictly greater than the
  threshold, the same mask selects the returned input and comp units, and both results
  have the shape (number of kept units, \<open>ticks_per_unit\<close>, \<open>num_pitches\<close>).
\<close>

theorem create_units_filter:
  assumes ws: "well_shaped P" and N: "int (shape1 P) = num_pitches" and tpu: "0 < ticks_per_unit"
    and M: "int (shape0 P) div ticks_per_unit \<noteq> 1"
  shows "\<exists>input0 comp0 kept input_units comp_units.
     create_units rnd P num_pitches ticks_per_unit partition_note min_pitch threshold
       = Inr (input_units, comp_units)
     \<and> length input0 = nat (int (shape0 P) div ticks_per_unit)
     \<and> length comp0 = nat (int (shape0 P) div ticks_per_unit)
     \<and> kept = map (\<lambda>u. mean_above threshold (unit_mean u)) input0
     \<and> units input_units = bool_index kept input0
     \<and> units comp_units = bool_index kept comp0
     \<and> length (units input_units) = count_true kept
     \<and> length (units comp_units) = count_true kept
     \<and> dim0 input_units = count_true kept \<and> dim0 comp_units = count_true kept
     \<and> int (dim1 input_units) = ticks_per_unit \<and> int (dim1 comp_units) = ticks_per_unit
     \<and> int (dim2 input_units) = num_pitches \<and> int (dim2 comp_units) = num_pitches"
proof -
  define Mn where "Mn = nat (int (shape0 P) div ticks_per_unit)"
  define U where "U = chunks Mn (nat ticks_per_unit) (take (Mn * nat ticks_per_unit) (rows P))"
  define L where "L = map (map (zero_slice (partition_note - min_pitch) (int (shape1 P)))) U"
  define R where "R = map (map (zero_slice 0 (partition_note - min_pitch))) U"
  define I where "I = masked_assign (map rnd [0..<Mn]) L R"
  define C where "C = masked_assign (map rnd [0..<Mn]) R L"
  define kept where "kept = map (\<lambda>u. mean_above threshold (unit_mean u)) I"
  have q0: "0 \<le> int (shape0 P) div ticks_per_unit"
    using tpu by (simp add: pos_imp_zdiv_nonneg_iff)
  hence M1: "Mn \<noteq> 1" using M by (auto simp: Mn_def)
  have res: "create_units rnd P num_pitches ticks_per_unit partition_note min_pitch threshold
      = Inr (\<lparr>dim0 = count_true kept, dim1 = nat ticks_per_unit, dim2 = shape1 P,
               units = bool_index kept I\<rparr>,
             \<lparr>dim0 = count_true kept, dim1 = nat ticks_per_unit, dim2 = shape1 P,
               units = bool_index kept C\<rparr>)"
    using create_units_eq[OF ws N tpu, of rnd partition_note min_pitch threshold] M1
    unfolding Mn_def[symmetric] U_def[symmetric] L_def[symmetric] R_def[symmetric]
      I_def[symmetric] C_def[symmetric] kept_def[symmetric]
    by simp
  have lenU: "length U = Mn" by (simp add: U_def length_chunks)
  hence lenI: "length I = Mn" and lenC: "length C = Mn"
    by (simp_all add: I_def C_def L_def R_def masked_assign_length)
  have lk: "length kept = length I" "length kept = length C"
    using lenI lenC by (simp_all add: kept_def)
  show ?thesis
    apply (rule exI[of _ I], rule exI[of _ C], rule exI[of _ kept])
    unfolding res using lenI lenC lk tpu N
    by (simp add: Mn_def[symmetric] kept_def length_bool_index)
qed

theorem create_units_filter_witness:
  "create_units (\<lambda>i. i = 1)
     \<lparr>shape0 = 4, shape1 = 2, rows = [[1, 0], [0, 2], [0, 0], [0, 0]]\<rparr> 2 2 1 0 0
   = Inr (\<lparr>dim0 = 1, dim1 = 2, dim2 = 2, units = [[[1, 0], [0, 0]]]\<rparr>,
          \<lparr>dim0 = 1, dim1 = 2, dim2 = 2, units = [[[0, 0], [0, 2]]]\<rparr>)"
proof -
  let ?P = "\<lparr>shape0 = 4, shape1 = 2, rows = [[1, 0], [0, 2], [0, 0], [0, 0::int]]\<rparr>"
  have "well_shaped ?P" by (simp add: well_shaped_def)
  from create_units_filter[OF this, of 2 2 "\<lambda>i. i = 1" 1 0 0]
  obtain iu cu where "create_units (\<lambda>i. i = 1) ?P 2 2 1 0 0 = Inr (iu, cu)"
    "dim0 iu = length (units iu)"
    by auto
  moreover have "create_units (\<lambda>i. i = 1) ?P 2 2 1 0 0
   = Inr (\<lparr>dim0 = 1, dim1 = 2, dim2 = 2, units = [[[1, 0], [0, 0]]]\<rparr>,
          \<lparr>dim0 = 1, dim1 = 2, dim2 = 2, units = [[[0, 0], [0, 2]]]\<rparr>)"
    by code_simp
  ultimately show ?thesis by simp
qed

section \<open>Properties of the event quantizer\<close>

text \<open>
  Claim C1 ends with a scenario: the values \<open>[0,0,5,5,5,0,0,0]\<close> on pitch 60 with
  \<open>min_pitch = max_pitch = 60\<close>. The code raises on it: with the pitch axis first (the
  layout the assertion asks for) \<^verbatim>\<open>diff[:, 60]\<close> is out of range, because \<^verbatim>\<open>diff\<close> has
  one column; with the tick axis first the assertion on the shape fails.
\<close>

theorem pianoroll_2_events_pitch_60_fails:
  "pianoroll_2_events \<lparr>shape0 = 1, shape1 = 8, rows = [[0, 0, 5, 5, 5, 0, 0, 0]]\<rparr> 60 60
     = Inl IndexError
   \<and> pianoroll_2_events
       \<lparr>shape0 = 8, shape1 = 1, rows = [[0], [0], [5], [5], [5], [0], [0], [0]]\<rparr> 60 60
     = Inl AssertionError"
  by (simp add: pianoroll_2_events_def column_def Let_def)

lemma pitch_loop_fails:
  "\<exists>p \<in> set ps. int num_pitches \<le> min_pitch + int p \<Longrightarrow>
   \<exists>e. pitch_loop clipped diff num_pitches num_ticks min_pitch ps events = Inl e"
proof (induction ps arbitrary: events)
  case Nil
  then show ?case by simp
next
  case (Cons p ps)
  show ?case
  proof (cases "int num_pitches \<le> min_pitch + int p")
    case True
    then show ?thesis by (simp add: column_def)
  next
    case False
    with Cons.prems have "\<exists>p \<in> set ps. int num_pitches \<le> min_pitch + int p" by auto
    from Cons.IH[OF this] show ?thesis
      by (auto simp: Let_def split: sum.splits)
  qed
qed

text \<open>
  Claim C2 says that \<open>pianoroll_2_events\<close> returns without error whenever the pitch axis
  has \<open>max_pitch - min_pitch + 1\<close> entries and \<open>0 \<le> min_pitch \<le> max_pitch \<le> 127\<close>. The
  code raises on every such call with \<open>min_pitch \<ge> 1\<close>: the last pitch index reads column
  \<open>min_pitch + num_pitches - 1\<close> of an array with \<open>num_pitches\<close> columns.
\<close>

theorem pianoroll_2_events_fails_above_pitch_0:
  assumes "1 \<le> min_pitch" and "min_pitch \<le> max_pitch"
    and "int (shape0 P) = max_pitch - min_pitch + 1"
  shows "\<exists>e. pianoroll_2_events P min_pitch max_pitch = Inl e"
proof -
  have "shape0 P - 1 \<in> set [0..<shape0 P]" using assms by auto
  moreover have "int (shape0 P) \<le> min_pitch + int (shape0 P - 1)" using assms by auto
  ultimately have "\<exists>p \<in> set [0..<shape0 P]. int (shape0 P) \<le> min_pitch + int p" by blast
  from pitch_loop_fails[OF this] show ?thesis
    using assms(3) by (simp add: pianoroll_2_events_def Let_def)
qed

theorem pianoroll_2_events_fails_above_pitch_0_witness:
  "pianoroll_2_events \<lparr>shape0 = 2, shape1 = 4, rows = [[0, 0, 5, 5], [3, 4, 0, 9]]\<rparr> 1 2
   = Inl IndexError"
proof -
  obtain e where
    "pianoroll_2_events \<lparr>shape0 = 2, shape1 = 4, rows = [[0, 0, 5, 5], [3, 4, 0, 9]]\<rparr> 1 2 = Inl e"
    using pianoroll_2_events_fails_above_pitch_0
      [of 1 2 "\<lparr>shape0 = 2, shape1 = 4, rows = [[0, 0, 5, 5], [3, 4, 0, 9]]\<rparr>"]
    by auto
  moreover have
    "pianoroll_2_events \<lparr>shape0 = 2, shape1 = 4, rows = [[0, 0, 5, 5], [3, 4, 0, 9]]\<rparr> 1 2
     = Inl IndexError"
    by code_simp
  ultimately show ?thesis by simp
qed

subsection \<open>Edges and runs\<close>

lemma edge_series_Nil: "edge_series prev [] = [- of_bool prev]"
  by (simp add: edge_series_def diff1_def)

lemma edge_series_Cons:
  "edge_series prev (v # vs) = (of_bool (v \<noteq> 0) - of_bool prev) # edge_series (v \<noteq> 0) vs"
  by (simp add: edge_series_def diff1_def)

lemma edges_runs:
  "(\<not> prev \<longrightarrow>
      length (nonzero_from k (map (\<lambda>d. d < 0) (edge_series prev xs)))
        = length (nonzero_from k (map (\<lambda>d. d > 0) (edge_series prev xs)))
      \<and> zip (nonzero_from k (map (\<lambda>d. d > 0) (edge_series prev xs)))
            (nonzero_from k (map (\<lambda>d. d < 0) (edge_series prev xs)))
          = runs_from k None xs)
   \<and> (prev \<longrightarrow>
      length (nonzero_from k (map (\<lambda>d. d < 0) (edge_series prev xs)))
        = Suc (length (nonzero_from k (map (\<lambda>d. d > 0) (edge_series prev xs))))
      \<and> (\<forall>a. zip (a # nonzero_from k (map (\<lambda>d. d > 0) (edge_series prev xs)))
            (nonzero_from k (map (\<lambda>d. d < 0) (edge_series prev xs)))
          = runs_from k (Some a) xs))"
proof (induction xs arbitrary: k prev)
  case Nil
  show ?case by (cases prev) (simp_all add: edge_series_Nil)
next
  case (Cons v vs)
  show ?case
    using Cons.IH[where k = "Suc k" and prev = "v \<noteq> 0"]
    by (cases prev; cases "v = 0") (simp_all add: edge_series_Cons)
qed

lemma runs_from_bounds:
  "(a', b') \<in> set (runs_from k st xs) \<Longrightarrow> (\<And>a. st = Some a \<Longrightarrow> a < k) \<Longrightarrow>
   a' < b' \<and> b' \<le> k + length xs"
proof (induction k st xs rule: runs_from.induct)
  case (1 k)
  then show ?case by simp
next
  case (2 k a)
  then show ?case by simp
next
  case (3 k v vs)
  then show ?case by (auto split: if_splits)
next
  case (4 k a v vs)
  then show ?case by (fastforce split: if_splits)
qed

lemma runs_from_nonzero_Some:
  "\<forall>v \<in> set run. v \<noteq> 0 \<Longrightarrow> post = [] \<or> hd post = 0 \<Longrightarrow>
   runs_from k (Some a) (run @ post) = (a, k + length run) # runs_from (k + length run) None post"
proof (induction run arbitrary: k)
  case Nil
  then show ?case by (cases post) auto
next
  case (Cons r run)
  then show ?case by simp
qed

lemma runs_from_nonzero_None:
  "run \<noteq> [] \<Longrightarrow> \<forall>v \<in> set run. v \<noteq> 0 \<Longrightarrow> post = [] \<or> hd post = 0 \<Longrightarrow>
   runs_from k None (run @ post) = (k, k + length run) # runs_from (k + length run) None post"
  by (cases run) (simp_all add: runs_from_nonzero_Some)

lemma runs_from_append:
  "pre \<noteq> [] \<Longrightarrow> last pre = 0 \<Longrightarrow>
   runs_from k st (pre @ ys) = runs_from k st pre @ runs_from (k + length pre) None ys"
proof (induction pre arbitrary: k st)
  case Nil
  then show ?case by simp
next
  case (Cons x pre)
  show ?case
  proof (cases "pre = []")
    case True
    with Cons.prems show ?thesis by (cases st) simp_all
  next
    case False
    with Cons.prems have "last pre = 0" by simp
    from Cons.IH[OF False this] show ?thesis by (cases st) simp_all
  qed
qed

lemma runs_from_decompose:
  assumes "pre = [] \<or> last pre = 0" and "run \<noteq> []" and "\<forall>v \<in> set run. v \<noteq> 0"
    and "post = [] \<or> hd post = 0"
  shows "runs_from 0 None (pre @ run @ post) =
     runs_from 0 None pre @ (length pre, length pre + length run)
       # runs_from (length pre + length run) None post"
proof (cases "pre = []")
  case True
  then show ?thesis using assms by (simp add: runs_from_nonzero_None)
next
  case False
  with assms(1) have "last pre = 0" by simp
  from runs_from_append[OF False this, where k = 0 and st = None and ys = "run @ post"] assms(2,3,4)
  show ?thesis by (simp add: runs_from_nonzero_None)
qed


subsection \<open>The inner loop\<close>

lemma sum_list_bounds:
  "\<forall>v \<in> set xs. lo \<le> v \<and> v \<le> hi \<Longrightarrow>
   lo * int (length xs) \<le> sum_list xs \<and> sum_list xs \<le> hi * int (length xs)"
  by (induction xs) (auto simp: algebra_simps)

lemma mean_bounds:
  assumes "xs \<noteq> []" and "\<forall>v \<in> set xs. lo \<le> v \<and> v \<le> hi" and "0 \<le> lo"
  shows "lo \<le> trunc_div (sum_list xs) (int (length xs))
         \<and> trunc_div (sum_list xs) (int (length xs)) \<le> hi"
proof -
  let ?n = "int (length xs)"
  have n: "0 < ?n" using assms(1) by simp
  from sum_list_bounds[OF assms(2)]
  have lo: "lo * ?n \<le> sum_list xs" and hi: "sum_list xs \<le> hi * ?n" by simp_all
  have "0 \<le> lo * ?n" using assms(3) by simp
  hence s0: "0 \<le> sum_list xs" using lo by linarith
  have "(lo * ?n) div ?n \<le> sum_list xs div ?n" using lo n by (rule zdiv_mono1)
  moreover have "sum_list xs div ?n \<le> (hi * ?n) div ?n" using hi n by (rule zdiv_mono1)
  ultimately show ?thesis using n s0 by (simp add: trunc_div_pos)
qed

lemma column_slice:
  assumes "p < N" and "a \<le> b" and "b \<le> length c"
  shows "column N (py_slice (int a) (int b) c) (int p)
         = Inr (take (b - a) (drop a (map (\<lambda>r. r ! p) c)))"
  using assms by (simp add: column_def py_slice_def slice_index_def take_map drop_map)

lemma note_loop_step:
  assumes p: "p < N" and pitch: "0 \<le> pitch" "pitch \<le> 127"
    and len: "length ev = n" "length c = n"
    and range: "\<forall>v \<in> set (map (\<lambda>r. r ! p) c). 0 \<le> v \<and> v \<le> 127"
    and idx: "idx < length offs" "ons ! idx = a" "offs ! idx = b"
    and ab: "a < b" "b \<le> n"
  shows "\<exists>ev1. length ev1 = n
           \<and> (\<forall>t. t < n \<longrightarrow> ev1 ! t = ev ! t @ pair_msgs (map (\<lambda>r. r ! p) c) pitch n t (a, b))
           \<and> note_loop c N p pitch n ons offs ((idx, a) # rest) ev
               = note_loop c N p pitch n ons offs rest ev1"
proof -
  let ?x = "map (\<lambda>r. r ! p) c"
  let ?run = "take (b - a) (drop a ?x)"
  let ?on = "\<lparr>msg_type = ''note_on'', msg_note = pitch, msg_velocity = run_velocity ?x a b,
             msg_time = 0\<rparr>"
  let ?off = "\<lparr>msg_type = ''note_on'', msg_note = pitch, msg_velocity = 0, msg_time = 0\<rparr>"
  let ?ev1 = "ev[a := ev ! a @ [?on]]"
  let ?ev2 = "?ev1[b := ?ev1 ! b @ [?off]]"
  have col: "column N (py_slice (int a) (int b) c) (int p) = Inr ?run"
    using p ab len by (intro column_slice) simp_all
  have lrun: "length ?run = b - a" using ab len by simp
  hence ne: "?run \<noteq> []" using ab by auto
  have "\<forall>v \<in> set ?run. 0 \<le> v \<and> v \<le> 127"
    using range by (meson in_set_dropD in_set_takeD)
  from mean_bounds[OF ne this] lrun
  have vel: "0 \<le> run_velocity ?x a b" "run_velocity ?x a b \<le> 127"
    by (simp_all add: run_velocity_def)
  have on: "Message ''note_on'' pitch (run_velocity ?x a b) 0 = Inr ?on"
    using pitch vel by (simp add: Message_def)
  have off: "Message ''note_on'' pitch 0 0 = Inr ?off"
    using pitch by (simp add: Message_def)
  have a: "a < n" using ab by simp
  have ap1: "append_event ev a ?on = Inr ?ev1" using a len by (simp add: append_event_def)
  have ap2: "b < n \<Longrightarrow> append_event ?ev1 b ?off = Inr ?ev2" using len by (simp add: append_event_def)
  have unfold: "note_loop c N p pitch n ons offs ((idx, a) # rest) ev
      = note_loop c N p pitch n ons offs rest (if b < n then ?ev2 else ?ev1)"
    using idx col ne on off ap1 ap2 lrun
    by (simp add: Let_def run_velocity_def)
  have nth: "(if b < n then ?ev2 else ?ev1) ! t = ev ! t @ pair_msgs ?x pitch n t (a, b)"
    if "t < n" for t
    using that a ab len by (auto simp: pair_msgs_def nth_list_update)
  have "length (if b < n then ?ev2 else ?ev1) = n" using len by simp
  with nth unfold show ?thesis by blast
qed

lemma note_loop_pairs:
  assumes p: "p < N" and pitch: "0 \<le> pitch" "pitch \<le> 127"
    and lenc: "length c = n"
    and range: "\<forall>v \<in> set (map (\<lambda>r. r ! p) c). 0 \<le> v \<and> v \<le> 127"
  shows "length ev = n \<Longrightarrow> length pre = length pre' \<Longrightarrow> length ons' = length offs' \<Longrightarrow>
     \<forall>(a, b) \<in> set (zip ons' offs'). a < b \<and> b \<le> n \<Longrightarrow>
     \<exists>ev'. note_loop c N p pitch n (pre @ ons') (pre' @ offs') (enumerate (length pre) ons') ev
             = Inr ev'
        \<and> length ev' = n
        \<and> (\<forall>t. t < n \<longrightarrow>
              ev' ! t = ev ! t
                @ concat (map (pair_msgs (map (\<lambda>r. r ! p) c) pitch n t) (zip ons' offs')))"
proof (induction ons' arbitrary: ev pre pre' offs')
  case Nil
  then show ?case by simp
next
  case (Cons a ons')
  then obtain b bs where offs': "offs' = b # bs" by (cases offs') auto
  with Cons.prems have ab: "a < b" "b \<le> n" and lbs: "length ons' = length bs"
    and rest: "\<forall>(a, b) \<in> set (zip ons' bs). a < b \<and> b \<le> n"
    by auto
  have idx: "length pre < length (pre' @ offs')" "(pre @ a # ons') ! length pre = a"
    "(pre' @ offs') ! length pre = b"
    using Cons.prems(2) offs' by (simp_all add: nth_append)
  from note_loop_step[OF p pitch Cons.prems(1) lenc range idx ab,
      of "enumerate (Suc (length pre)) ons'"]
  obtain ev1 where l1: "length ev1 = n"
    and n1: "\<forall>t. t < n \<longrightarrow> ev1 ! t = ev ! t @ pair_msgs (map (\<lambda>r. r ! p) c) pitch n t (a, b)"
    and st: "note_loop c N p pitch n (pre @ a # ons') (pre' @ offs')
               ((length pre, a) # enumerate (Suc (length pre)) ons') ev
             = note_loop c N p pitch n (pre @ a # ons') (pre' @ offs')
                 (enumerate (Suc (length pre)) ons') ev1"
    by blast
  have lp: "length (pre @ [a]) = length (pre' @ [b])" using Cons.prems(2) by simp
  from Cons.IH[OF l1 lp lbs rest]
  obtain ev' where r: "note_loop c N p pitch n ((pre @ [a]) @ ons') ((pre' @ [b]) @ bs)
        (enumerate (length (pre @ [a])) ons') ev1 = Inr ev'"
    and l': "length ev' = n"
    and n': "\<forall>t. t < n \<longrightarrow> ev' ! t = ev1 ! t
                @ concat (map (pair_msgs (map (\<lambda>r. r ! p) c) pitch n t) (zip ons' bs))"
    by blast
  have "note_loop c N p pitch n (pre @ a # ons') (pre' @ offs')
          (enumerate (length pre) (a # ons')) ev = Inr ev'"
    using st r offs' by simp
  moreover have "\<forall>t. t < n \<longrightarrow> ev' ! t = ev ! t
      @ concat (map (pair_msgs (map (\<lambda>r. r ! p) c) pitch n t) (zip (a # ons') offs'))"
    using n1 n' offs' by simp
  ultimately show ?case using l' by blast
qed

subsection \<open>The outer loop and the whole function\<close>

lemma diff1_map:
  "diff1 (map h xs) = map (\<lambda>(r, r'). h r' - h r) (zip xs (tl xs))"
  by (auto simp: diff1_def map_tl[symmetric] zip_map_map simp del: map_tl)

lemma np_diff_column:
  assumes "p < N" and "\<forall>r \<in> set xs. length r = N"
  shows "map (\<lambda>r. r ! p) (np_diff xs) = diff1 (map (\<lambda>r. r ! p) xs)"
proof -
  have "(map (\<lambda>(a, b). b - a) (zip r r')) ! p = r' ! p - r ! p"
    if "(r, r') \<in> set (zip xs (tl xs))" for r r'
  proof -
    have "r \<in> set xs" "r' \<in> set (tl xs)" using that by (auto dest: set_zip_leftD set_zip_rightD)
    moreover have "set (tl xs) \<subseteq> set xs" by (cases xs) auto
    ultimately have "length r = N" "length r' = N" using assms(2) by auto
    thus ?thesis using assms(1) by simp
  qed
  thus ?thesis
    unfolding diff1_map np_diff_def by (auto simp: comp_def intro!: map_cong)
qed

lemma diff_column:
  assumes p: "p < N" and cols: "\<forall>r \<in> set c. length r = N"
  shows "column N (np_diff (map (map of_bool) (np_pad_rows N (map (map (\<lambda>x. x \<noteq> 0)) c))))
           (int p)
         = Inr (edge_series False (map (\<lambda>r. r ! p) c))"
proof -
  let ?pad = "map (map of_bool) (np_pad_rows N (map (map (\<lambda>x. x \<noteq> 0)) c))"
  have rows: "\<forall>r \<in> set ?pad. length r = N"
    using cols by (auto simp: np_pad_rows_def)
  have A: "map (\<lambda>r. r ! p) ?pad
      = of_bool False # map (\<lambda>v. of_bool (v \<noteq> 0)) (map (\<lambda>r. r ! p) c) @ [0]"
    using p cols by (simp add: np_pad_rows_def comp_def)
  have "map (\<lambda>r. r ! p) (np_diff ?pad) = diff1 (map (\<lambda>r. r ! p) ?pad)"
    by (rule np_diff_column[OF p rows])
  also have "\<dots> = edge_series False (map (\<lambda>r. r ! p) c)"
    unfolding A edge_series_def ..
  finally show ?thesis using p by (simp add: column_def)
qed

lemma pitch_step:
  assumes p: "p < N" and N: "N \<le> 128" and lenc: "length c = n"
    and range: "\<forall>v \<in> set (map (\<lambda>r. r ! p) c). 0 \<le> v \<and> v \<le> 127"
    and lev: "length ev = n"
  shows "\<exists>ev'. note_loop c N p (int p) n
            (nonzero (map (\<lambda>x. x > 0) (edge_series False (map (\<lambda>r. r ! p) c))))
            (nonzero (map (\<lambda>x. x < 0) (edge_series False (map (\<lambda>r. r ! p) c))))
            (enumerate 0 (nonzero (map (\<lambda>x. x > 0) (edge_series False (map (\<lambda>r. r ! p) c)))))
            ev = Inr ev'
         \<and> length ev' = n
         \<and> (\<forall>t. t < n \<longrightarrow> ev' ! t = ev ! t @ col_msgs (map (\<lambda>r. r ! p) c) (int p) n t)"
proof -
  let ?x = "map (\<lambda>r. r ! p) c"
  let ?ons = "nonzero (map (\<lambda>x. x > 0) (edge_series False ?x))"
  let ?offs = "nonzero (map (\<lambda>x. x < 0) (edge_series False ?x))"
  from edges_runs[of False 0 ?x]
  have leq: "length ?ons = length ?offs" and z: "zip ?ons ?offs = runs_from 0 None ?x"
    by (simp_all add: nonzero_def)
  have bounds: "\<forall>(a, b) \<in> set (zip ?ons ?offs). a < b \<and> b \<le> n"
    unfolding z using runs_from_bounds[of _ _ 0 None ?x] lenc by auto
  have pitch: "0 \<le> int p" "int p \<le> 127" using p N by simp_all
  from note_loop_pairs[OF p pitch lenc range lev _ leq bounds, of "[]" "[]"]
  show ?thesis by (simp add: col_msgs_def z)
qed

lemma pitch_loop_events:
  assumes N: "N \<le> 128" and lenc: "length c = n" and cols: "\<forall>r \<in> set c. length r = N"
    and range: "\<forall>r \<in> set c. \<forall>v \<in> set r. 0 \<le> v \<and> v \<le> 127"
  shows "\<forall>p \<in> set ps. p < N \<Longrightarrow> length ev = n \<Longrightarrow>
     \<exists>ev'. pitch_loop c
             (np_diff (map (map of_bool) (np_pad_rows N (map (map (\<lambda>x. x \<noteq> 0)) c))))
             N n 0 ps ev = Inr ev'
        \<and> length ev' = n
        \<and> (\<forall>t. t < n \<longrightarrow>
              ev' ! t = ev ! t
                @ concat (map (\<lambda>p. col_msgs (map (\<lambda>r. r ! p) c) (int p) n t) ps))"
proof (induction ps arbitrary: ev)
  case Nil
  then show ?case by simp
next
  case (Cons p ps)
  hence p: "p < N" and ps: "\<forall>p \<in> set ps. p < N" by simp_all
  have "\<forall>v \<in> set (map (\<lambda>r. r ! p) c). 0 \<le> v \<and> v \<le> 127"
    using range cols p by auto
  from pitch_step[OF p N lenc this Cons.prems(2)]
  obtain ev1 where s: "note_loop c N p (int p) n
            (nonzero (map (\<lambda>x. x > 0) (edge_series False (map (\<lambda>r. r ! p) c))))
            (nonzero (map (\<lambda>x. x < 0) (edge_series False (map (\<lambda>r. r ! p) c))))
            (enumerate 0 (nonzero (map (\<lambda>x. x > 0) (edge_series False (map (\<lambda>r. r ! p) c)))))
            ev = Inr ev1"
    and l1: "length ev1 = n"
    and n1: "\<forall>t. t < n \<longrightarrow> ev1 ! t = ev ! t @ col_msgs (map (\<lambda>r. r ! p) c) (int p) n t"
    by blast
  from Cons.IH[OF ps l1]
  obtain ev' where r: "pitch_loop c
             (np_diff (map (map of_bool) (np_pad_rows N (map (map (\<lambda>x. x \<noteq> 0)) c))))
             N n 0 ps ev1 = Inr ev'"
    and l': "length ev' = n"
    and n': "\<forall>t. t < n \<longrightarrow> ev' ! t = ev1 ! t
                @ concat (map (\<lambda>p. col_msgs (map (\<lambda>r. r ! p) c) (int p) n t) ps)"
    by blast
  have "pitch_loop c
             (np_diff (map (map of_bool) (np_pad_rows N (map (map (\<lambda>x. x \<noteq> 0)) c))))
             N n 0 (p # ps) ev = Inr ev'"
    using s r by (simp add: diff_column[OF p cols] Let_def)
  moreover have "\<forall>t. t < n \<longrightarrow> ev' ! t = ev ! t
      @ concat (map (\<lambda>p. col_msgs (map (\<lambda>r. r ! p) c) (int p) n t) (p # ps))"
    using n1 n' by simp
  ultimately show ?case using l' by blast
qed

lemma np_T_column:
  assumes "well_shaped P" and "p < shape0 P"
  shows "map (\<lambda>r. r ! p) (rows (np_T P)) = rows P ! p"
proof -
  have "length (rows P ! p) = shape1 P"
    using assms by (simp add: well_shaped_def list_all_length)
  thus ?thesis
    using assms map_nth[of "rows P ! p"] by (simp add: np_T_def well_shaped_def comp_def)
qed

lemma pianoroll_2_events_buckets:
  assumes ws: "well_shaped P" and shape: "int (shape0 P) = max_pitch + 1" and mx: "max_pitch \<le> 127"
    and range: "\<forall>r \<in> set (rows P). \<forall>v \<in> set r. 0 \<le> v \<and> v \<le> 127"
  shows "\<exists>events. pianoroll_2_events P 0 max_pitch = Inr events
           \<and> length events = shape1 P
           \<and> (\<forall>t. t < shape1 P \<longrightarrow>
                 events ! t
                   = concat (map (\<lambda>p. col_msgs (rows P ! p) (int p) (shape1 P) t) [0..<shape0 P]))"
proof -
  let ?c = "rows (np_T P)"
  let ?N = "shape0 P" and ?n = "shape1 P"
  have lenP: "length (rows P) = ?N" and colsP: "\<forall>r \<in> set (rows P). length r = ?n"
    using ws by (simp_all add: well_shaped_def list_all_iff)
  have N: "?N \<le> 128" using shape mx by linarith
  have lenc: "length ?c = ?n" by (simp add: np_T_def)
  have cols: "\<forall>r \<in> set ?c. length r = ?N" using lenP by (auto simp: np_T_def)
  have rangec: "\<forall>r \<in> set ?c. \<forall>v \<in> set r. 0 \<le> v \<and> v \<le> 127"
  proof (intro ballI)
    fix r v assume "r \<in> set ?c" "v \<in> set r"
    then obtain t where t: "t < ?n" and "v \<in> set (map (\<lambda>r. r ! t) (rows P))"
      by (auto simp: np_T_def)
    then obtain r' where r': "r' \<in> set (rows P)" and v: "v = r' ! t" by auto
    hence "v \<in> set r'" using colsP t by (metis nth_mem)
    thus "0 \<le> v \<and> v \<le> 127" using range r' by blast
  qed
  have ps: "\<forall>p \<in> set [0..<?N]. p < ?N" by simp
  from pitch_loop_events[OF N lenc cols rangec ps, of "replicate ?n []"]
  obtain ev' where r: "pitch_loop ?c
             (np_diff (map (map of_bool) (np_pad_rows ?N (map (map (\<lambda>x. x \<noteq> 0)) ?c))))
             ?N ?n 0 [0..<?N] (replicate ?n []) = Inr ev'"
    and l': "length ev' = ?n"
    and n': "\<forall>t. t < ?n \<longrightarrow> ev' ! t = replicate ?n [] ! t
                @ concat (map (\<lambda>p. col_msgs (map (\<lambda>r. r ! p) ?c) (int p) ?n t) [0..<?N])"
    by auto
  have "concat (map (\<lambda>p. col_msgs (map (\<lambda>r. r ! p) ?c) (int p) ?n t) [0..<?N])
      = concat (map (\<lambda>p. col_msgs (rows P ! p) (int p) ?n t) [0..<?N])" for t
    using np_T_column[OF ws] by (intro arg_cong[where f = concat] map_cong) auto
  hence "\<forall>t. t < ?n \<longrightarrow> ev' ! t
      = concat (map (\<lambda>p. col_msgs (rows P ! p) (int p) ?n t) [0..<?N])"
    using n' by simp
  moreover have "pianoroll_2_events P 0 max_pitch = Inr ev'"
    using r shape by (simp add: pianoroll_2_events_def Let_def)
  ultimately show ?thesis using l' by blast
qed


lemma concat_map_Nil: "\<forall>y \<in> set ys. f y = [] \<Longrightarrow> concat (map f ys) = []"
  by (induction ys) simp_all


lemma concat_single:
  "p < N \<Longrightarrow> concat (map (\<lambda>q. if q = p then A q else []) [0..<N]) = A p"
proof (induction N)
  case 0
  then show ?case by simp
next
  case (Suc N)
  show ?case
  proof (cases "p = N")
    case True
    have "concat (map (\<lambda>q. if q = p then A q else []) [0..<N]) = []"
      using True by (intro concat_map_Nil) auto
    with True show ?thesis by simp
  next
    case False
    with Suc.prems have "p < N" by simp
    from Suc.IH[OF this] False show ?thesis by simp
  qed
qed







subsection \<open>A single run, with the lowest pitch 0\<close>

lemma runs_from_zeros: "\<forall>v \<in> set zs. v = 0 \<Longrightarrow> runs_from k None zs = []"
  by (induction zs arbitrary: k) simp_all

lemma col_msgs_zeros: "\<forall>v \<in> set zs. v = 0 \<Longrightarrow> col_msgs zs pitch n t = []"
  by (simp add: col_msgs_def runs_from_zeros)

lemma mean_replicate:
  assumes "0 < m" and "0 \<le> v"
  shows "trunc_div (sum_list (replicate m v)) (int m) = v"
proof -
  have "sum_list (replicate m v) = int m * v" by (simp add: sum_list_replicate)
  moreover have "0 \<le> int m * v" using assms by simp
  ultimately show ?thesis using assms by (simp add: trunc_div_pos)
qed

lemma col_msgs_single_run:
  assumes ab: "a < b" "b \<le> n" and v: "0 < v"
  shows "col_msgs (replicate a 0 @ replicate (b - a) v @ replicate (n - b) 0) pitch n t
     = (if t = a
        then [\<lparr>msg_type = ''note_on'', msg_note = pitch, msg_velocity = v, msg_time = 0\<rparr>]
        else if t = b \<and> b < n
        then [\<lparr>msg_type = ''note_on'', msg_note = pitch, msg_velocity = 0, msg_time = 0\<rparr>]
        else [])"
proof -
  let ?pre = "replicate a (0::int)" and ?run = "replicate (b - a) v"
  let ?post = "replicate (n - b) (0::int)"
  let ?x = "?pre @ ?run @ ?post"
  have pre: "?pre = [] \<or> last ?pre = 0" by (cases a) simp_all
  have post: "?post = [] \<or> hd ?post = 0" by (cases "n - b") simp_all
  have run: "?run \<noteq> []" "\<forall>w \<in> set ?run. w \<noteq> 0" using ab v by auto
  have "runs_from 0 None ?x = runs_from 0 None ?pre @ (length ?pre, length ?pre + length ?run)
       # runs_from (length ?pre + length ?run) None ?post"
    using pre run post by (rule runs_from_decompose)
  hence runs: "runs_from 0 None ?x = [(a, b)]"
    using ab by (simp add: runs_from_zeros)
  have "take (b - a) (drop a ?x) = ?run" by simp
  hence vel: "run_velocity ?x a b = v"
    using ab v mean_replicate[of "b - a" v] by (simp add: run_velocity_def)
  show ?thesis
    using ab by (auto simp: col_msgs_def runs pair_msgs_def vel)
qed

text \<open>
  With \<open>min_pitch = 0\<close> the quantizer does what the round-trip property asks. For a
  well-formed pianoroll that is zero except for one run of the constant velocity \<open>v\<close>
  (\<open>1..127\<close>) on pitch \<open>p\<close> from tick \<open>a\<close> to tick \<open>b\<close> (exclusive), the result is: the
  note-on with velocity \<open>v\<close> in bucket \<open>a\<close>, the note-off in bucket \<open>b\<close> when \<open>b\<close> is a
  tick, and every other bucket empty.
\<close>

theorem pianoroll_2_events_single_run:
  assumes ws: "well_shaped P" and shape: "int (shape0 P) = max_pitch + 1" and mx: "max_pitch \<le> 127"
    and p: "p < shape0 P" and ab: "a < b" "b \<le> shape1 P" and v: "0 < v" "v \<le> 127"
    and row: "rows P ! p = replicate a 0 @ replicate (b - a) v @ replicate (shape1 P - b) 0"
    and others: "\<forall>q. q < shape0 P \<and> q \<noteq> p \<longrightarrow> rows P ! q = replicate (shape1 P) 0"
  shows "pianoroll_2_events P 0 max_pitch =
     Inr (map (\<lambda>t. if t = a
                    then [\<lparr>msg_type = ''note_on'', msg_note = int p, msg_velocity = v,
                            msg_time = 0\<rparr>]
                    else if t = b
                    then [\<lparr>msg_type = ''note_on'', msg_note = int p, msg_velocity = 0,
                            msg_time = 0\<rparr>]
                    else [])
            [0..<shape1 P])"
proof -
  let ?n = "shape1 P"
  let ?on = "\<lparr>msg_type = ''note_on'', msg_note = int p, msg_velocity = v, msg_time = 0\<rparr>"
  let ?off = "\<lparr>msg_type = ''note_on'', msg_note = int p, msg_velocity = 0, msg_time = 0\<rparr>"
  have len: "length (rows P) = shape0 P" using ws by (simp add: well_shaped_def)
  have range: "\<forall>r \<in> set (rows P). \<forall>w \<in> set r. 0 \<le> w \<and> w \<le> 127"
  proof (intro ballI)
    fix r w assume "r \<in> set (rows P)" "w \<in> set r"
    then obtain q where q: "q < shape0 P" "r = rows P ! q" using len by (metis in_set_conv_nth)
    show "0 \<le> w \<and> w \<le> 127"
    proof (cases "q = p")
      case True
      with q row \<open>w \<in> set r\<close> v show ?thesis by (auto split: if_splits)
    next
      case False
      with q others \<open>w \<in> set r\<close> show ?thesis by (auto split: if_splits)
    qed
  qed
  from pianoroll_2_events_buckets[OF ws shape mx range]
  obtain events where res: "pianoroll_2_events P 0 max_pitch = Inr events"
    and le: "length events = ?n"
    and bucket: "\<forall>t. t < ?n \<longrightarrow> events ! t
        = concat (map (\<lambda>q. col_msgs (rows P ! q) (int q) ?n t) [0..<shape0 P])"
    by blast
  have col: "col_msgs (rows P ! q) (int q) ?n t
      = (if q = p then (if t = a then [?on] else if t = b \<and> b < ?n then [?off] else []) else [])"
    if "q < shape0 P" for q t
  proof (cases "q = p")
    case True
    thus ?thesis using col_msgs_single_run[OF ab v(1), of "int p" t] row by simp
  next
    case False
    with that others have "rows P ! q = replicate ?n 0" by simp
    thus ?thesis using False by (simp add: col_msgs_zeros)
  qed
  have "events ! t = (if t = a then [?on] else if t = b then [?off] else [])" if "t < ?n" for t
  proof -
    have "events ! t = concat (map (\<lambda>q. if q = p
        then (if t = a then [?on] else if t = b \<and> b < ?n then [?off] else []) else [])
        [0..<shape0 P])"
      using bucket that col by (auto intro!: arg_cong[where f = concat] map_cong)
    also have "\<dots> = (if t = a then [?on] else if t = b \<and> b < ?n then [?off] else [])"
      by (rule concat_single[OF p])
    finally show ?thesis using that by auto
  qed
  hence "events = map (\<lambda>t. if t = a then [?on] else if t = b then [?off] else []) [0..<?n]"
    using le by (intro nth_equalityI) auto
  with res show ?thesis by simp
qed

theorem pianoroll_2_events_single_run_witness:
  "pianoroll_2_events \<lparr>shape0 = 1, shape1 = 8, rows = [[0, 0, 5, 5, 5, 0, 0, 0]]\<rparr> 0 0 =
     Inr [[], [],
          [\<lparr>msg_type = ''note_on'', msg_note = 0, msg_velocity = 5, msg_time = 0\<rparr>],
          [], [],
          [\<lparr>msg_type = ''note_on'', msg_note = 0, msg_velocity = 0, msg_time = 0\<rparr>],
          [], []]"
proof -
  let ?P = "\<lparr>shape0 = 1, shape1 = 8, rows = [[0, 0, 5, 5, 5, 0, 0, 0::int]]\<rparr>"
  have "well_shaped ?P" by (simp add: well_shaped_def)
  moreover have "rows ?P ! 0 = replicate 2 0 @ replicate (5 - 2) 5 @ replicate (shape1 ?P - 5) 0"
    by (simp add: numeral_eq_Suc)
  ultimately have "pianoroll_2_events ?P 0 0 =
     Inr (map (\<lambda>t. if t = 2
                    then [\<lparr>msg_type = ''note_on'', msg_note = int 0, msg_velocity = 5,
                            msg_time = 0\<rparr>]
                    else if t = 5
                    then [\<lparr>msg_type = ''note_on'', msg_note = int 0, msg_velocity = 0,
                            msg_time = 0\<rparr>]
                    else [])
            [0..<shape1 ?P])"
    by (intro pianoroll_2_events_single_run) simp_all
  thus ?thesis by (simp add: upt_rec)
qed

end
